theory Spec2Isabelle
  imports Complex_Main "HOL-Library.Word"
begin

section \<open>External collaborators: images, the circular list, the clock and the sink\<close>

text \<open>
  A \<open>gocv.Mat\<close> is an image owned by OpenCV. The recorder only looks at its size
  (\<open>Rows\<close>, \<open>Cols\<close>), asks whether it is empty, clones it and closes it; the pixel
  content is kept as an opaque number. As in OpenCV, a matrix is empty when it has
  no element. \<open>Clone\<close> makes an independent copy with the same content.
\<close>

record Mat =
  Rows :: nat
  Cols :: nat
  Pixels :: nat

definition Empty :: "Mat \<Rightarrow> bool" where
  "Empty m = (Rows m = 0 \<or> Cols m = 0)"

definition Clone :: "Mat \<Rightarrow> Mat" where
  "Clone m = m"

text \<open>
  Go's \<open>int\<close> is a 64-bit two's complement integer on the platforms the program is
  built for: \<open>+\<close> and \<open>*\<close> wrap around and comparisons read the value with
  \<open>sint\<close>. The conversion \<open>int(f)\<close> of a \<open>float64\<close> drops the fraction
  (it rounds towards zero). A finite \<open>float64\<close> is read as the real number it
  denotes. The definition describes the conversion for values strictly between
  \<open>-2^63\<close> and \<open>2^63\<close>; for a value whose integer part does not fit, Go leaves the
  result to the implementation, and the theorems that say what the converted frame rate
  is for every frame rate assume that range.
\<close>

type_synonym go_int = "64 word"

definition float64_to_int :: "real \<Rightarrow> go_int" where
  "float64_to_int f = word_of_int (if 0 \<le> f then \<lfloor>f\<rfloor> else \<lceil>f\<rceil>)"

text \<open>
  \<open>container/ring\<close>: a \<open>*ring.Ring\<close> points at one element of a circular list.
  A non-nil ring is the value of the element pointed at together with the values of
  the elements that follow it, in \<open>Next\<close> order; the nil ring is \<open>None\<close>.
  \<open>ring.New(n)\<close> returns nil for \<open>n \<le> 0\<close> and \<open>n\<close> nil values otherwise.
  Reading or writing \<open>Value\<close> and calling \<open>Next\<close> dereference the pointer;
  \<open>Do\<close> checks for nil first and visits the elements in forward order, starting at
  the element pointed at.
\<close>

datatype 'a ring = Ring (Value: 'a) (following: "'a list")

definition ring_New :: "go_int \<Rightarrow> 'a option ring option" where
  "ring_New n =
     (if sint n \<le> 0 then None
      else Some (Ring None (replicate (nat (sint n) - 1) None)))"

definition ring_Len :: "'a ring option \<Rightarrow> nat" where
  "ring_Len p = (case p of None \<Rightarrow> 0 | Some rg \<Rightarrow> Suc (length (following rg)))"

definition ring_set_Value :: "'a \<Rightarrow> 'a ring \<Rightarrow> 'a ring" where
  "ring_set_Value v rg = Ring v (following rg)"

definition ring_Next :: "'a ring \<Rightarrow> 'a ring" where
  "ring_Next rg =
     (case following rg of
        [] \<Rightarrow> rg
      | x # xs \<Rightarrow> Ring x (xs @ [Value rg]))"

definition ring_Do :: "'a ring option \<Rightarrow> ('a \<Rightarrow> 's \<Rightarrow> 's) \<Rightarrow> 's \<Rightarrow> 's" where
  "ring_Do p f s =
     (case p of
        None \<Rightarrow> s
      | Some rg \<Rightarrow> fold f (Value rg # following rg) s)"

text \<open>The values \<open>Do\<close> visits, in the order it visits them.\<close>

definition Drain :: "'a ring option \<Rightarrow> 'a list" where
  "Drain p = ring_Do p (\<lambda>v acc. acc @ [v]) []"

text \<open>
  What the operating system, the clock and OpenCV answer during one call:
  whether \<open>os.MkdirAll\<close> fails, the formatted time stamp and the time read by
  \<open>time.Now\<close>, the outcome of \<open>gocv.VideoWriterFile\<close> followed by
  \<open>IsOpened\<close>, and whether \<open>VideoWriter.Write\<close> returns an error for an image.
\<close>

datatype open_result = OpenError | NotOpened | Opened

record Env =
  mkdir_fails :: bool
  timestamp :: string
  now :: nat
  open_result :: open_result
  write_fails :: "Mat \<Rightarrow> bool"

text \<open>The errors returned, named after the taxonomy of the specification.\<close>

datatype error =
    OutputDirFailed
  | NoPreBufferFrames
  | SinkOpenFailed
  | SinkNotOpened
  | NotFound string
  | NotRunning string

datatype panic = NilPointerDereference

text \<open>
  Everything the recorder does to the outside world is appended to a trace, in program
  order: calls on the video writer, images released, lines logged and goroutines
  started. The \<open>bool\<close> of \<open>WriterWrite\<close> says whether that write returned an
  error.
\<close>

datatype log_line =
    LogStarted string string
  | LogWrotePreBuffered string nat
  | LogStopped string string

datatype effect =
    MkdirAll string
  | VideoWriterFile string real nat nat
  | WriterWrite string Mat bool
  | WriterClose string
  | MatClose Mat
  | Log log_line
  | GoConvertAVItoMP4 string

section \<open>The recorder\<close>

text \<open>
  \<open>writer\<close> is the open video writer, identified by the file it writes, or
  \<open>None\<close> for the nil pointer. The mutex is not modelled: every operation holds
  it from entry to exit, so operations are atomic steps on the record.
\<close>

record VideoRecorder =
  Name :: string
  OutputPath :: string
  FPS :: real
  PreBufferSeconds :: go_int
  PostBufferSeconds :: go_int
  writer :: "string option"
  preBuffer :: "Mat option ring option"
  isRecording :: bool
  recordingStart :: nat
  framesSinceMotion :: go_int
  currentFile :: string
  trace :: "effect list"

definition NewRecorder ::
  "string \<Rightarrow> string \<Rightarrow> real \<Rightarrow> go_int \<Rightarrow> go_int \<Rightarrow> VideoRecorder" where
  "NewRecorder name outputPath fps preBufferSecs postBufferSecs =
     (let bufferSize = float64_to_int fps * preBufferSecs;
          preBufferRing = ring_New bufferSize
      in \<lparr> Name = name,
           OutputPath = outputPath,
           FPS = fps,
           PreBufferSeconds = preBufferSecs,
           PostBufferSeconds = postBufferSecs,
           writer = None,
           preBuffer = preBufferRing,
           isRecording = False,
           recordingStart = 0,
           framesSinceMotion = 0,
           currentFile = [],
           trace = [] \<rparr>)"

definition AddFrame :: "Env \<Rightarrow> Mat \<Rightarrow> VideoRecorder \<Rightarrow> panic + VideoRecorder" where
  "AddFrame env frame r =
     (case preBuffer r of
        None \<Rightarrow> Inl NilPointerDereference
      | Some rg \<Rightarrow>
          let released =
                (case Value rg of
                   None \<Rightarrow> []
                 | Some oldMat \<Rightarrow> if \<not> Empty oldMat then [MatClose oldMat] else []);
              rg' = ring_Next (ring_set_Value (Some (Clone frame)) rg);
              written =
                (case writer r of
                   None \<Rightarrow> []
                 | Some w \<Rightarrow>
                     if isRecording r \<and> \<not> Empty frame
                     then [WriterWrite w frame (write_fails env frame)] else [])
          in Inr (r\<lparr> preBuffer := Some rg', trace := trace r @ released @ written \<rparr>))"

text \<open>The closure of \<open>StartRecording\<close> that picks the size of the first valid image.\<close>

definition pick_size :: "Mat option \<Rightarrow> nat \<times> nat \<Rightarrow> nat \<times> nat" where
  "pick_size val wh =
     (case val of
        None \<Rightarrow> wh
      | Some mat \<Rightarrow> if \<not> Empty mat \<and> fst wh = 0 then (Cols mat, Rows mat) else wh)"

text \<open>The closure that writes a buffered image; the state is the writes and the count.\<close>

definition write_buffered ::
  "Env \<Rightarrow> string \<Rightarrow> Mat option \<Rightarrow> effect list \<times> nat \<Rightarrow> effect list \<times> nat" where
  "write_buffered env w val acc =
     (case val of
        None \<Rightarrow> acc
      | Some mat \<Rightarrow>
          if \<not> Empty mat
          then (fst acc @ [WriterWrite w mat (write_fails env mat)], snd acc + 1)
          else acc)"

text \<open>
  \<open>filepath.Join\<close> of a directory and a file name, on a system whose separator is
  the slash: empty elements are ignored, the others are joined with a slash, and the
  result is cleaned. \<open>filepath.Clean\<close> drops empty and \<open>.\<close> elements, lets a
  \<open>..\<close> element cancel the element before it (and drops it at the root), and returns
  \<open>.\<close> rather than the empty string.
\<close>

fun path_elements :: "string \<Rightarrow> string list" where
  "path_elements [] = [[]]"
| "path_elements (c # cs) =
     (if c = CHR ''/'' then [] # path_elements cs
      else (case path_elements cs of
              [] \<Rightarrow> [[c]]
            | x # xs \<Rightarrow> (c # x) # xs))"

fun clean_step :: "bool \<Rightarrow> string list \<Rightarrow> string \<Rightarrow> string list" where
  "clean_step rooted out e =
     (if e = [] \<or> e = ''.'' then out
      else if e = ''..'' then
        (if out \<noteq> [] \<and> last out \<noteq> ''..'' then butlast out
         else if rooted then out
         else out @ [e])
      else out @ [e])"

fun join_elements :: "string list \<Rightarrow> string" where
  "join_elements [] = []"
| "join_elements [e] = e"
| "join_elements (e # es) = e @ ''/'' @ join_elements es"

definition filepath_Clean :: "string \<Rightarrow> string" where
  "filepath_Clean path =
     (let rooted = (path \<noteq> [] \<and> hd path = CHR ''/'');
          out = foldl (clean_step rooted) [] (path_elements path);
          cleaned = (if rooted then ''/'' else []) @ join_elements out
      in if cleaned = [] then ''.'' else cleaned)"

definition join_path :: "string \<Rightarrow> string \<Rightarrow> string" where
  "join_path dir file =
     (if dir \<noteq> [] then filepath_Clean (dir @ ''/'' @ file)
      else if file \<noteq> [] then filepath_Clean file
      else [])"

definition StartRecording :: "Env \<Rightarrow> VideoRecorder \<Rightarrow> error option \<times> VideoRecorder" where
  "StartRecording env r =
     (if isRecording r then (None, r)
      else
        let r0 = r\<lparr> trace := trace r @ [MkdirAll (OutputPath r)] \<rparr> in
        if mkdir_fails env then (Some OutputDirFailed, r0)
        else
          let filename = join_path (OutputPath r0) (Name r0 @ ''_'' @ timestamp env @ ''.avi'');
              r1 = r0\<lparr> currentFile := filename \<rparr>;
              wh = ring_Do (preBuffer r1) pick_size (0, 0);
              width = fst wh;
              height = snd wh
          in
          if width = 0 \<or> height = 0 then (Some NoPreBufferFrames, r1)
          else
            let r2 = r1\<lparr> trace := trace r1 @ [VideoWriterFile filename (FPS r1) width height] \<rparr> in
            (case open_result env of
               OpenError \<Rightarrow> (Some SinkOpenFailed, r2)
             | NotOpened \<Rightarrow> (Some SinkNotOpened, r2)
             | Opened \<Rightarrow>
                 let r3 = r2\<lparr> writer := Some filename,
                              isRecording := True,
                              recordingStart := now env,
                              framesSinceMotion := 0,
                              trace := trace r2 @ [Log (LogStarted (Name r2) filename)] \<rparr>;
                     wr = ring_Do (preBuffer r3) (write_buffered env filename) ([], 0)
                 in (None,
                     r3\<lparr> trace := trace r3 @ fst wr
                                   @ [Log (LogWrotePreBuffered (Name r3) (snd wr))] \<rparr>)))"

definition OnMotion :: "VideoRecorder \<Rightarrow> VideoRecorder" where
  "OnMotion r = r\<lparr> framesSinceMotion := 0 \<rparr>"

definition stopRecording :: "VideoRecorder \<Rightarrow> VideoRecorder" where
  "stopRecording r =
     (let r1 = (case writer r of
                  None \<Rightarrow> r
                | Some w \<Rightarrow> r\<lparr> writer := None, trace := trace r @ [WriterClose w] \<rparr>);
          r2 = r1\<lparr> isRecording := False,
                   trace := trace r1 @ [Log (LogStopped (Name r1) (currentFile r1))] \<rparr>
      in if currentFile r2 \<noteq> []
         then r2\<lparr> trace := trace r2 @ [GoConvertAVItoMP4 (currentFile r2)] \<rparr>
         else r2)"

definition Update :: "VideoRecorder \<Rightarrow> bool \<times> VideoRecorder" where
  "Update r =
     (if \<not> isRecording r then (False, r)
      else
        let r1 = r\<lparr> framesSinceMotion := framesSinceMotion r + 1 \<rparr>;
            maxFrames = float64_to_int (FPS r1) * PostBufferSeconds r1
        in if sint maxFrames \<le> sint (framesSinceMotion r1)
           then (True, stopRecording r1)
           else (False, r1))"

definition Stop :: "VideoRecorder \<Rightarrow> VideoRecorder" where
  "Stop r = stopRecording r"

definition IsRecording :: "VideoRecorder \<Rightarrow> bool" where
  "IsRecording r = isRecording r"

definition Close :: "VideoRecorder \<Rightarrow> VideoRecorder" where
  "Close r =
     (let r1 = Stop r
      in r1\<lparr> trace := ring_Do (preBuffer r1)
                          (\<lambda>val t. case val of
                                      None \<Rightarrow> t
                                    | Some mat \<Rightarrow> if \<not> Empty mat then t @ [MatClose mat] else t)
                          (trace r1) \<rparr>)"

section \<open>Sequences of calls\<close>

text \<open>
  The calls a camera loop and the control layer make on one recorder. A panic ends the
  run: no later call is made.
\<close>

datatype call =
    AddFrameCall Env Mat
  | StartRecordingCall Env
  | OnMotionCall
  | UpdateCall
  | StopCall
  | CloseCall

fun exec :: "call \<Rightarrow> VideoRecorder \<Rightarrow> panic + VideoRecorder" where
  "exec (AddFrameCall env frame) r = AddFrame env frame r"
| "exec (StartRecordingCall env) r = Inr (snd (StartRecording env r))"
| "exec OnMotionCall r = Inr (OnMotion r)"
| "exec UpdateCall r = Inr (snd (Update r))"
| "exec StopCall r = Inr (Stop r)"
| "exec CloseCall r = Inr (Close r)"

fun run :: "call list \<Rightarrow> VideoRecorder \<Rightarrow> panic + VideoRecorder" where
  "run [] r = Inr r"
| "run (c # cs) r = (case exec c r of Inl p \<Rightarrow> Inl p | Inr r' \<Rightarrow> run cs r')"

fun is_AddFrameCall :: "call \<Rightarrow> bool" where
  "is_AddFrameCall (AddFrameCall env frame) = True"
| "is_AddFrameCall c = False"

text \<open>\<open>AddFrame\<close> once for each image of a list, in order.\<close>

fun AddFrames :: "Env \<Rightarrow> Mat list \<Rightarrow> VideoRecorder \<Rightarrow> panic + VideoRecorder" where
  "AddFrames env [] r = Inr r"
| "AddFrames env (frame # frames) r =
     (case AddFrame env frame r of Inl p \<Rightarrow> Inl p | Inr r' \<Rightarrow> AddFrames env frames r')"

text \<open>The recorder after \<open>n\<close> calls of \<open>Update\<close> and nothing in between.\<close>

primrec Updates :: "nat \<Rightarrow> VideoRecorder \<Rightarrow> VideoRecorder" where
  "Updates 0 r = r"
| "Updates (Suc n) r = snd (Update (Updates n r))"

text \<open>
  The first \<open>n\<close> calls of an endless sequence of \<open>Update\<close> and \<open>OnMotion\<close>
  calls; \<open>motion i\<close> says that call number \<open>i\<close> is \<open>OnMotion\<close>.
\<close>

primrec ticks :: "(nat \<Rightarrow> bool) \<Rightarrow> nat \<Rightarrow> VideoRecorder \<Rightarrow> VideoRecorder" where
  "ticks motion 0 r = r"
| "ticks motion (Suc n) r =
     (if motion n then OnMotion (ticks motion n r) else snd (Update (ticks motion n r)))"

text \<open>The value \<open>Update\<close> compares the counter with.\<close>

definition postBufferFrames :: "VideoRecorder \<Rightarrow> go_int" where
  "postBufferFrames r = float64_to_int (FPS r) * PostBufferSeconds r"

text \<open>Readings of a trace and of the buffer used to state the properties.\<close>

definition valid_mats :: "Mat option list \<Rightarrow> Mat list" where
  "valid_mats vs =
     concat (map (\<lambda>v. case v of None \<Rightarrow> [] | Some m \<Rightarrow> if Empty m then [] else [m]) vs)"

fun written_frames :: "effect list \<Rightarrow> Mat list" where
  "written_frames [] = []"
| "written_frames (WriterWrite w m failed # es) = m # written_frames es"
| "written_frames (e # es) = written_frames es"

fun log_lines :: "effect list \<Rightarrow> log_line list" where
  "log_lines [] = []"
| "log_lines (Log l # es) = l # log_lines es"
| "log_lines (e # es) = log_lines es"

fun writers_opened :: "effect list \<Rightarrow> string list" where
  "writers_opened [] = []"
| "writers_opened (VideoWriterFile f fps w h # es) = f # writers_opened es"
| "writers_opened (e # es) = writers_opened es"

fun writers_closed :: "effect list \<Rightarrow> string list" where
  "writers_closed [] = []"
| "writers_closed (WriterClose f # es) = f # writers_closed es"
| "writers_closed (e # es) = writers_closed es"

fun conversions :: "effect list \<Rightarrow> string list" where
  "conversions [] = []"
| "conversions (GoConvertAVItoMP4 f # es) = f # conversions es"
| "conversions (e # es) = conversions es"

section \<open>The manager's registry\<close>

text \<open>
  The registry maps a camera name to a pointer to its monitor; the monitor loop holds
  the same pointer, so monitors live in a store and \<open>stopMonitor\<close> changes the
  monitor in place. A stream is reduced to what \<open>Close\<close> changes, a detector to
  whether it was closed, the stop channel to whether it was closed (which is what the
  loop's \<open>select\<close> waits for). The configuration and the caches of the manager
  play no part in \<open>StopCamera\<close> and \<open>Stop\<close> and are left out.
\<close>

record Stream =
  capture :: bool
  isOpen :: bool

definition Stream_Close :: "Stream \<Rightarrow> Stream" where
  "Stream_Close s = s\<lparr> capture := False, isOpen := False \<rparr>"

record Detector =
  closed :: bool

definition Detector_Close :: "Detector \<Rightarrow> Detector" where
  "Detector_Close d = d\<lparr> closed := True \<rparr>"

record CameraMonitor =
  monitorName :: string
  Enabled :: bool
  MotionDetectEnabled :: bool
  stream :: "Stream option"
  detector :: "Detector option"
  recorder :: "VideoRecorder option"
  stopChanClosed :: bool
  running :: bool
  subscribers :: "nat list"

type_synonym monitor_ptr = nat

record Manager =
  monitors :: "string \<rightharpoonup> monitor_ptr"
  store :: "monitor_ptr \<Rightarrow> CameraMonitor"

definition stopMonitor :: "CameraMonitor \<Rightarrow> CameraMonitor" where
  "stopMonitor monitor =
     (if \<not> running monitor then monitor
      else monitor\<lparr> stopChanClosed := True,
                    running := False,
                    stream := map_option Stream_Close (stream monitor),
                    detector := map_option Detector_Close (detector monitor),
                    recorder := map_option Close (recorder monitor) \<rparr>)"

definition StopCamera :: "string \<Rightarrow> Manager \<Rightarrow> error option \<times> Manager" where
  "StopCamera cameraName m =
     (case monitors m cameraName of
        None \<Rightarrow> (Some (NotFound cameraName), m)
      | Some p \<Rightarrow>
          if \<not> running (store m p) then (Some (NotRunning cameraName), m)
          else (None,
                m\<lparr> store := (store m)(p := stopMonitor (store m p)),
                   monitors := (monitors m)(cameraName := None) \<rparr>))"

text \<open>
  \<open>Manager.Stop\<close> calls \<open>stopMonitor\<close> on every monitor of the registry and
  removes none. The order in which the loop visits them is not fixed and does not matter,
  since stopping one monitor leaves the others as they are.
\<close>

definition Manager_Stop :: "Manager \<Rightarrow> Manager" where
  "Manager_Stop m =
     m\<lparr> store := (\<lambda>p. if p \<in> ran (monitors m) then stopMonitor (store m p) else store m p) \<rparr>"

section \<open>Example values\<close>

definition example_env :: Env where
  "example_env =
     \<lparr> mkdir_fails = False, timestamp = ''20240101_120000'', now = 0,
       open_result = Opened, write_fails = (\<lambda>m. False) \<rparr>"

definition failing_sink_env :: Env where
  "failing_sink_env = example_env\<lparr> write_fails := (\<lambda>m. True) \<rparr>"

definition example_frame :: "nat \<Rightarrow> Mat" where
  "example_frame n = \<lparr> Rows = 2, Cols = 3, Pixels = n \<rparr>"

text \<open>A recorder of capacity 2 that has buffered two images, idle and then started.\<close>

definition example_idle :: VideoRecorder where
  "example_idle =
     (NewRecorder ''cam'' ''out'' 1 2 2)
       \<lparr> preBuffer := Some (Ring (Some (example_frame 1)) [Some (example_frame 2)]) \<rparr>"

definition example_recording :: VideoRecorder where
  "example_recording = snd (StartRecording example_env example_idle)"

definition example_monitor :: CameraMonitor where
  "example_monitor =
     \<lparr> monitorName = ''cam'', Enabled = True, MotionDetectEnabled = True,
       stream = Some \<lparr> capture = True, isOpen = True \<rparr>,
       detector = Some \<lparr> closed = False \<rparr>,
       recorder = Some example_recording,
       stopChanClosed = False, running = True, subscribers = [] \<rparr>"

text \<open>A registry of two running monitors.\<close>

definition example_manager :: Manager where
  "example_manager =
     \<lparr> monitors = [''cam'' \<mapsto> 0, ''yard'' \<mapsto> 1],
       store = (\<lambda>p. if p = 0 then example_monitor
                     else example_monitor\<lparr> monitorName := ''yard'' \<rparr>) \<rparr>"

text \<open>A recorder at 30 frames per second, two seconds of post-roll, one image buffered.\<close>

definition example_idle_30 :: VideoRecorder where
  "example_idle_30 =
     (NewRecorder ''cam'' ''out'' 30 1 2)
       \<lparr> preBuffer := Some (Ring None (replicate 28 None @ [Some (example_frame 1)])) \<rparr>"

text \<open>A recorder at 2.5 frames per second: capacity 2, two seconds of post-roll.\<close>

definition example_idle_frac :: VideoRecorder where
  "example_idle_frac =
     (NewRecorder ''cam'' ''out'' (5 / 2) 1 2)
       \<lparr> preBuffer := Some (Ring (Some (example_frame 1)) [Some (example_frame 2)]) \<rparr>"

definition example_recording_frac :: VideoRecorder where
  "example_recording_frac = snd (StartRecording example_env example_idle_frac)"

section \<open>Facts about the example values\<close>

lemmas example_defs =
  example_idle_def example_recording_def example_env_def failing_sink_env_def
  example_frame_def NewRecorder_def float64_to_int_def ring_New_def

lemma filepath_Clean_nonempty: "filepath_Clean path \<noteq> []"
  by (simp add: filepath_Clean_def Let_def)

lemma example_path:
  "join_path ''out'' ''cam_20240101_120000.avi'' = ''out/cam_20240101_120000.avi''"
  by (simp add: join_path_def filepath_Clean_def)

lemma example_idle_reached:
  "AddFrames example_env [example_frame 1, example_frame 2] (NewRecorder ''cam'' ''out'' 1 2 2)
     = Inr example_idle"
  by (simp add: example_defs AddFrame_def ring_Next_def ring_set_Value_def Clone_def Empty_def)

lemma example_start_ok: "fst (StartRecording example_env example_idle) = None"
  by (simp add: example_defs StartRecording_def ring_Do_def pick_size_def Empty_def Let_def)

lemma example_start_eq:
  "StartRecording example_env example_idle = (None, example_recording)"
  using example_start_ok by (simp add: prod_eq_iff example_recording_def)

section \<open>Starting twice\<close>

text \<open>
  C4. A second \<open>StartRecording\<close> right after one that returned success returns
  success again and changes nothing: no writer is opened, nothing is written, and the
  recorder, its trace of effects included, is the one the first call left.
\<close>

theorem StartRecording_twice_idempotent:
  assumes "StartRecording env1 r = (None, r1)"
  shows "StartRecording env2 r1 = (None, r1)
       \<and> writers_opened (trace (snd (StartRecording env2 r1))) = writers_opened (trace r1)
       \<and> written_frames (trace (snd (StartRecording env2 r1))) = written_frames (trace r1)"
proof -
  from assms have "isRecording r1"
    by (auto simp: StartRecording_def Let_def split: if_splits open_result.splits)
  then show ?thesis
    by (simp add: StartRecording_def)
qed

theorem StartRecording_twice_idempotent_witness:
  "StartRecording example_env example_idle = (None, example_recording)
   \<and> StartRecording failing_sink_env example_recording = (None, example_recording)"
  using StartRecording_twice_idempotent [OF example_start_eq, THEN conjunct1] example_start_eq
  by simp

section \<open>Stopping an idle recorder\<close>

lemma conversions_append: "conversions (xs @ ys) = conversions xs @ conversions ys"
  by (induction xs rule: conversions.induct) simp_all

lemma example_recording_eq:
  "example_recording =
     example_idle
       \<lparr> writer := Some ''out/cam_20240101_120000.avi'',
         isRecording := True,
         currentFile := ''out/cam_20240101_120000.avi'',
         trace := [MkdirAll ''out'',
                   VideoWriterFile ''out/cam_20240101_120000.avi'' 1 3 2,
                   Log (LogStarted ''cam'' ''out/cam_20240101_120000.avi''),
                   WriterWrite ''out/cam_20240101_120000.avi'' (example_frame 1) False,
                   WriterWrite ''out/cam_20240101_120000.avi'' (example_frame 2) False,
                   Log (LogWrotePreBuffered ''cam'' 2)] \<rparr>"
  by (simp add: example_defs StartRecording_def ring_Do_def pick_size_def write_buffered_def
      example_path Empty_def Let_def)

lemma example_stopped:
  "\<not> isRecording (Stop example_recording) \<and> writer (Stop example_recording) = None
   \<and> currentFile (Stop example_recording) = ''out/cam_20240101_120000.avi''
   \<and> conversions (trace (Stop example_recording)) = [''out/cam_20240101_120000.avi'']"
  by (simp add: example_recording_eq Stop_def stopRecording_def)

text \<open>
  C10. \<open>Stop\<close> on a recorder that is not recording and has no open writer is not a
  no-op: when the path of the current file is not empty (an earlier session set it), it
  logs a stop line and starts the conversion of that file once more. The recorder is
  otherwise unchanged; in particular it is still not recording and has no writer.
\<close>

theorem Stop_while_idle_converts_again:
  assumes "\<not> isRecording r" and "writer r = None" and "currentFile r \<noteq> []"
  shows "Stop r = r\<lparr> trace := trace r @ [Log (LogStopped (Name r) (currentFile r)),
                                        GoConvertAVItoMP4 (currentFile r)] \<rparr>
         \<and> \<not> isRecording (Stop r) \<and> writer (Stop r) = None
         \<and> conversions (trace (Stop r)) = conversions (trace r) @ [currentFile r]"
  using assms by (simp add: Stop_def stopRecording_def conversions_append)

theorem Stop_while_idle_converts_again_witness:
  "conversions (trace (Stop (Stop example_recording)))
     = [''out/cam_20240101_120000.avi'', ''out/cam_20240101_120000.avi'']
   \<and> \<not> isRecording (Stop (Stop example_recording))
   \<and> writer (Stop (Stop example_recording)) = None"
proof -
  have idle: "\<not> isRecording (Stop example_recording)"
    and nosink: "writer (Stop example_recording) = None"
    and hasfile: "currentFile (Stop example_recording) \<noteq> []"
    using example_stopped by simp_all
  from Stop_while_idle_converts_again [OF idle nosink hasfile, THEN conjunct2]
  show ?thesis using example_stopped by simp
qed

section \<open>The post-roll counter\<close>

lemma sint_succ:
  fixes c m :: go_int
  assumes "sint c < sint m"
  shows "sint (c + 1) = sint c + 1"
proof -
  have u: "sint m < 2 ^ 63" using sint_lt [of m] by simp
  have l: "- (2 ^ 63) \<le> sint c" using sint_ge [of c] by simp
  have "sint (c + 1) = signed_take_bit 63 (sint c + 1)"
    by (simp add: sint_word_ariths)
  also have "\<dots> = sint c + 1"
    using assms u l by (intro signed_take_bit_int_eq_self) auto
  finally show ?thesis .
qed

lemma float64_to_int_in_range:
  assumes "- (2 ^ 63) < f" and "f < 2 ^ 63"
  shows "sint (float64_to_int f) = (if 0 \<le> f then \<lfloor>f\<rfloor> else \<lceil>f\<rceil>)"
proof -
  let ?k = "if 0 \<le> f then \<lfloor>f\<rfloor> else \<lceil>f\<rceil>"
  have lo: "- (2 ^ 63) \<le> ?k"
  proof (cases "0 \<le> f")
    case True
    then have "0 \<le> \<lfloor>f\<rfloor>" by simp
    then show ?thesis using True by simp
  next
    case False
    have "real_of_int (- (2 ^ 63)) \<le> f" using assms(1) by simp
    then have "- (2 ^ 63) \<le> \<lceil>f\<rceil>" by linarith
    then show ?thesis using False by simp
  qed
  have hi: "?k < 2 ^ 63"
  proof (cases "0 \<le> f")
    case True
    have "f < real_of_int (2 ^ 63)" using assms(2) by simp
    then have "\<lfloor>f\<rfloor> < 2 ^ 63" by linarith
    then show ?thesis using True by simp
  next
    case False
    then have "\<lceil>f\<rceil> \<le> 0" by linarith
    then show ?thesis using False by simp
  qed
  have "sint (float64_to_int f) = signed_take_bit 63 ?k"
    by (simp add: float64_to_int_def sint_sbintrunc')
  also have "\<dots> = ?k"
    using lo hi by (intro signed_take_bit_int_eq_self) simp_all
  finally show ?thesis .
qed

lemma Update_idle: "\<not> isRecording r \<Longrightarrow> Update r = (False, r)"
  by (simp add: Update_def)

lemma Update_below:
  assumes "isRecording r" and "sint (framesSinceMotion r) + 1 < sint (postBufferFrames r)"
  shows "Update r = (False, r\<lparr> framesSinceMotion := framesSinceMotion r + 1 \<rparr>)"
proof -
  have "sint (framesSinceMotion r + 1) = sint (framesSinceMotion r) + 1"
    using assms(2) by (intro sint_succ [of _ "postBufferFrames r"]) simp
  with assms show ?thesis
    by (simp add: Update_def postBufferFrames_def Let_def)
qed

lemma Update_reached:
  assumes "isRecording r" and "sint (framesSinceMotion r) + 1 = sint (postBufferFrames r)"
  shows "Update r = (True, stopRecording (r\<lparr> framesSinceMotion := framesSinceMotion r + 1 \<rparr>))"
proof -
  have "sint (framesSinceMotion r + 1) = sint (framesSinceMotion r) + 1"
    using assms(2) by (intro sint_succ [of _ "postBufferFrames r"]) simp
  with assms show ?thesis
    by (simp add: Update_def postBufferFrames_def Let_def)
qed

lemma Updates_below:
  "isRecording r \<Longrightarrow> sint (framesSinceMotion r) + int k < sint (postBufferFrames r) \<Longrightarrow>
   Updates k r = r\<lparr> framesSinceMotion := framesSinceMotion r + of_nat k \<rparr>
   \<and> sint (framesSinceMotion r + of_nat k) = sint (framesSinceMotion r) + int k"
proof (induction k)
  case 0
  then show ?case by simp
next
  case (Suc k)
  let ?s = "r\<lparr> framesSinceMotion := framesSinceMotion r + of_nat k \<rparr>"
  from Suc have ih: "Updates k r = ?s"
    and sk: "sint (framesSinceMotion r + of_nat k) = sint (framesSinceMotion r) + int k"
    by simp_all
  have rec: "isRecording ?s" using Suc.prems by simp
  have below: "sint (framesSinceMotion ?s) + 1 < sint (postBufferFrames ?s)"
    using Suc.prems sk by (simp add: postBufferFrames_def)
  have "sint (framesSinceMotion ?s + 1) = sint (framesSinceMotion ?s) + 1"
    using below by (intro sint_succ [of _ "postBufferFrames ?s"]) simp
  with Update_below [OF rec below] ih sk show ?case
    by (simp add: ac_simps)
qed

lemma Updates_idle: "\<not> isRecording r \<Longrightarrow> Updates k r = r"
  by (induction k) (simp_all add: Update_idle)

lemma Updates_add: "Updates (a + b) r = Updates b (Updates a r)"
  by (induction b) simp_all

lemma StartRecording_started:
  assumes "\<not> isRecording r" and "StartRecording env r = (None, r1)"
  shows "isRecording r1 \<and> framesSinceMotion r1 = 0 \<and> FPS r1 = FPS r
         \<and> PostBufferSeconds r1 = PostBufferSeconds r \<and> Name r1 = Name r
         \<and> writer r1 = Some (currentFile r1) \<and> preBuffer r1 = preBuffer r
         \<and> currentFile r1 = join_path (OutputPath r) (Name r @ ''_'' @ timestamp env @ ''.avi'')"
  using assms
  by (auto simp: StartRecording_def Let_def split: if_splits open_result.splits)


lemma join_path_avi_nonempty: "join_path d (n @ ''_'' @ t @ ''.avi'') \<noteq> []"
  by (simp add: join_path_def filepath_Clean_nonempty)

text \<open>
  C2. At 30 frames per second and two seconds of post-roll, after a \<open>StartRecording\<close>
  that started a session (it sets the counter to 0), and with no \<open>OnMotion\<close>: each
  of the first 59 calls of \<open>Update\<close> returns false and leaves the recorder
  recording; the 60th returns true, leaves it idle with no writer, and closes the writer
  once; every later call returns false and changes nothing.
\<close>

theorem post_roll_expires_at_60th_Update:
  assumes "FPS r = 30" and "PostBufferSeconds r = 2" and "\<not> isRecording r"
    and "StartRecording env r = (None, r1)"
  shows "(\<forall>k<59. Update (Updates k r1) = (False, Updates (Suc k) r1)
                  \<and> isRecording (Updates (Suc k) r1))
       \<and> fst (Update (Updates 59 r1))
       \<and> \<not> isRecording (Updates 60 r1)
       \<and> writer (Updates 60 r1) = None
       \<and> trace (Updates 60 r1)
           = trace r1 @ [WriterClose (currentFile r1),
                         Log (LogStopped (Name r1) (currentFile r1)),
                         GoConvertAVItoMP4 (currentFile r1)]
       \<and> (\<forall>k\<ge>60. Updates k r1 = Updates 60 r1 \<and> \<not> fst (Update (Updates k r1)))"
proof -
  note st = StartRecording_started [OF assms(3,4)]
  have rec: "isRecording r1" and zero: "framesSinceMotion r1 = 0"
    and w: "writer r1 = Some (currentFile r1)" using st by simp_all
  have nonempty: "currentFile r1 \<noteq> []" using st join_path_avi_nonempty by simp
  have m: "sint (postBufferFrames r1) = 60"
    using st assms(1,2) by (simp add: postBufferFrames_def float64_to_int_def)
  have upto: "Updates k r1 = r1\<lparr> framesSinceMotion := of_nat k \<rparr>
              \<and> sint (of_nat k :: go_int) = int k" if "k < 60" for k
    using Updates_below [OF rec, of k] that m zero by simp
  have step: "Update (Updates k r1) = (False, Updates (Suc k) r1)
              \<and> isRecording (Updates (Suc k) r1)" if "k < 59" for k
  proof -
    have "isRecording (Updates (Suc k) r1)" using upto [of "Suc k"] that rec by simp
    moreover have "isRecording (Updates k r1)" using upto [of k] that rec by simp
    moreover have "sint (framesSinceMotion (Updates k r1)) + 1 < sint (postBufferFrames (Updates k r1))"
      using upto [of k] that m by (simp add: postBufferFrames_def)
    ultimately show ?thesis using Update_below [of "Updates k r1"] by simp
  qed
  have r59: "isRecording (Updates 59 r1)" using upto [of 59] rec by simp
  have e59: "sint (framesSinceMotion (Updates 59 r1)) + 1 = sint (postBufferFrames (Updates 59 r1))"
    using upto [of 59] m by (simp add: postBufferFrames_def)
  note last = Update_reached [OF r59 e59]
  have u60: "Updates 60 r1 = stopRecording (r1\<lparr> framesSinceMotion := 60 \<rparr>)"
  proof -
    have "Updates 60 r1 = snd (Update (Updates 59 r1))"
      using Updates.simps(2) [of 59 r1] by simp
    then show ?thesis using last upto [of 59] by simp
  qed
  have idle60: "\<not> isRecording (Updates 60 r1)"
    by (simp add: u60 stopRecording_def Let_def)
  have after: "Updates k r1 = Updates 60 r1 \<and> \<not> fst (Update (Updates k r1))" if "60 \<le> k" for k
  proof -
    have "Updates k r1 = Updates (k - 60) (Updates 60 r1)"
      using Updates_add [of 60 "k - 60" r1] that by simp
    then have "Updates k r1 = Updates 60 r1" using Updates_idle [OF idle60] by simp
    then show ?thesis using idle60 by (simp add: Update_idle)
  qed
  have "fst (Update (Updates 59 r1))" using last by simp
  moreover have "writer (Updates 60 r1) = None"
    using w by (simp add: u60 stopRecording_def Let_def)
  moreover have "trace (Updates 60 r1)
           = trace r1 @ [WriterClose (currentFile r1),
                         Log (LogStopped (Name r1) (currentFile r1)),
                         GoConvertAVItoMP4 (currentFile r1)]"
    using w nonempty by (simp add: u60 stopRecording_def Let_def)
  ultimately show ?thesis using step idle60 after by blast
qed


lemma example_idle_30_reached:
  "AddFrame example_env (example_frame 1) (NewRecorder ''cam'' ''out'' 30 1 2) = Inr example_idle_30"
proof -
  have "replicate 29 None = (None :: Mat option) # replicate 28 None"
    by (simp add: numeral_eq_Suc)
  then show ?thesis 
    by (simp add: example_idle_30_def example_defs AddFrame_def ring_Next_def
      ring_set_Value_def Clone_def Empty_def)
qed

lemma pick_size_None_funpow: "(pick_size None ^^ n) wh = wh"
  by (induction n) (simp_all add: pick_size_def)

lemma example_start_30_ok: "fst (StartRecording example_env example_idle_30) = None"
  by (simp add: example_idle_30_def example_defs StartRecording_def ring_Do_def
      pick_size_None_funpow pick_size_def Empty_def Let_def)

theorem post_roll_expires_at_60th_Update_witness:
  "FPS example_idle_30 = 30 \<and> PostBufferSeconds example_idle_30 = 2
   \<and> \<not> isRecording example_idle_30
   \<and> fst (StartRecording example_env example_idle_30) = None
   \<and> isRecording (Updates 59 (snd (StartRecording example_env example_idle_30)))
   \<and> fst (Update (Updates 59 (snd (StartRecording example_env example_idle_30))))
   \<and> \<not> isRecording (Updates 60 (snd (StartRecording example_env example_idle_30)))"
proof -
  have fps: "FPS example_idle_30 = 30" and post: "PostBufferSeconds example_idle_30 = 2"
    and idle: "\<not> isRecording example_idle_30"
    by (simp_all add: example_idle_30_def NewRecorder_def)
  have started: "StartRecording example_env example_idle_30
                   = (None, snd (StartRecording example_env example_idle_30))"
    using example_start_30_ok by (simp add: prod_eq_iff)
  note t = post_roll_expires_at_60th_Update [OF fps post idle started]
  have "(58::nat) < 59" by simp
  from t [THEN conjunct1, rule_format, OF this]
  have "isRecording (Updates (Suc 58) (snd (StartRecording example_env example_idle_30)))"
    by (rule conjunct2)
  moreover have "Suc 58 = 59" by simp
  ultimately have r59: "isRecording (Updates 59 (snd (StartRecording example_env example_idle_30)))"
    by (simp only:)
  note t2 = t [THEN conjunct2, THEN conjunct1]
  note t3 = t [THEN conjunct2, THEN conjunct2, THEN conjunct1]
  show ?thesis
    by (intro conjI fps post idle example_start_30_ok r59 t2 t3)
qed

section \<open>Motion during the post-roll\<close>

lemma postBufferFrames_counter [simp]:
  "postBufferFrames (r\<lparr> framesSinceMotion := c \<rparr>) = postBufferFrames r"
  by (simp add: postBufferFrames_def)

lemma ticks_invariant:
  assumes rec: "isRecording r" and zero: "framesSinceMotion r = 0"
    and window: "\<forall>i. \<exists>j. int j < sint (postBufferFrames r) \<and> motion (i + j)"
  shows "\<exists>c k. ticks motion n r = r\<lparr> framesSinceMotion := c \<rparr>
               \<and> k \<le> n \<and> sint c = int k
               \<and> (\<forall>i. n - k \<le> i \<and> i < n \<longrightarrow> \<not> motion i)
               \<and> int k < sint (postBufferFrames r)"
proof (induction n)
  case 0
  from window obtain j where "int j < sint (postBufferFrames r)" by blast
  then have pos: "0 < sint (postBufferFrames r)" by linarith
  have "ticks motion 0 r = r\<lparr> framesSinceMotion := 0 \<rparr>" using zero by simp
  then show ?case using pos by force
next
  case (Suc n)
  then obtain c k where shape: "ticks motion n r = r\<lparr> framesSinceMotion := c \<rparr>"
    and kn: "k \<le> n" and ck: "sint c = int k"
    and quiet: "\<forall>i. n - k \<le> i \<and> i < n \<longrightarrow> \<not> motion i"
    and below: "int k < sint (postBufferFrames r)" by blast
  let ?s = "r\<lparr> framesSinceMotion := c \<rparr>"
  show ?case
  proof (cases "motion n")
    case True
    have pos: "0 < sint (postBufferFrames r)" using below by linarith
    have "ticks motion (Suc n) r = r\<lparr> framesSinceMotion := 0 \<rparr>"
      using True shape by (simp add: OnMotion_def)
    then show ?thesis using pos by force
  next
    case False
    from window obtain j where j: "int j < sint (postBufferFrames r)"
      and mj: "motion (n - k + j)" by blast
    have "k < j"
    proof (rule ccontr)
      assume "\<not> k < j"
      then have "n - k + j \<le> n" using kn by simp
      then have "\<not> motion (n - k + j)"
        using quiet False by (cases "n - k + j = n") auto
      with mj show False by simp
    qed
    then have "int k + 1 < sint (postBufferFrames r)" using j by linarith
    then have room: "sint (framesSinceMotion ?s) + 1 < sint (postBufferFrames ?s)"
      using ck by simp
    have recs: "isRecording ?s" using rec by simp
    have up: "Update ?s = (False, ?s\<lparr> framesSinceMotion := framesSinceMotion ?s + 1 \<rparr>)"
      using Update_below [OF recs room] .
    have "sint (c + 1) = sint c + 1"
      using room by (intro sint_succ [of _ "postBufferFrames r"]) simp
    then have sc: "sint (c + 1) = int (Suc k)" using ck by simp
    have next_shape: "ticks motion (Suc n) r = r\<lparr> framesSinceMotion := c + 1 \<rparr>"
      using False shape up by simp
    have next_quiet: "\<forall>i. Suc n - Suc k \<le> i \<and> i < Suc n \<longrightarrow> \<not> motion i"
      using quiet False by (auto simp: less_Suc_eq)
    have next_below: "int (Suc k) < sint (postBufferFrames r)"
      using \<open>int k + 1 < sint (postBufferFrames r)\<close> by simp
    have "Suc k \<le> Suc n" using kn by simp
    with next_shape sc next_quiet next_below show ?thesis by blast
  qed
qed


lemma Update_true_stops: "fst (Update s) \<Longrightarrow> \<not> isRecording (snd (Update s))"
  by (simp add: Update_def stopRecording_def Let_def split: if_splits option.splits)

text \<open>
  C5, as amended. \<open>OnMotion\<close> sets the counter to 0. Take a recording recorder whose
  counter is 0 and an endless sequence of \<open>Update\<close> and \<open>OnMotion\<close> calls in
  which every stretch of as many consecutive calls as \<open>Update\<close>'s bound contains an
  \<open>OnMotion\<close>, the bound being \<open>int(fps)\<close> times the post-buffer seconds in
  64-bit integers, for a frame rate strictly between \<open>-2^63\<close> and \<open>2^63\<close>. Then
  after any number of calls the recorder is still recording, its writer and its trace are
  untouched, and every \<open>Update\<close> made returned false.
\<close>

theorem periodic_OnMotion_never_idles:
  assumes "isRecording r" and "framesSinceMotion r = 0"
    and "- (2 ^ 63) < FPS r" and "FPS r < 2 ^ 63"
    and "\<forall>i. \<exists>j. int j < sint (postBufferFrames r) \<and> motion (i + j)"
  shows "sint (float64_to_int (FPS r)) = (if 0 \<le> FPS r then \<lfloor>FPS r\<rfloor> else \<lceil>FPS r\<rceil>)
       \<and> isRecording (ticks motion n r)
       \<and> trace (ticks motion n r) = trace r
       \<and> writer (ticks motion n r) = writer r
       \<and> (motion n \<longrightarrow> framesSinceMotion (ticks motion (Suc n) r) = 0)
       \<and> (\<not> motion n \<longrightarrow> Update (ticks motion n r) = (False, ticks motion (Suc n) r))"
proof -
  from ticks_invariant [OF assms(1,2,5), of n]
  obtain c where now: "ticks motion n r = r\<lparr> framesSinceMotion := c \<rparr>" by blast
  from ticks_invariant [OF assms(1,2,5), of "Suc n"]
  obtain c' where later: "ticks motion (Suc n) r = r\<lparr> framesSinceMotion := c' \<rparr>" by blast
  have rec_later: "isRecording (ticks motion (Suc n) r)"
    using later assms(1) by simp
  have quiet: "Update (ticks motion n r) = (False, ticks motion (Suc n) r)" if "\<not> motion n"
  proof -
    have step: "ticks motion (Suc n) r = snd (Update (ticks motion n r))"
      using that by simp
    then have "\<not> fst (Update (ticks motion n r))"
      using Update_true_stops [of "ticks motion n r"] rec_later by auto
    then show ?thesis using step by (simp add: prod_eq_iff)
  qed
  have reset: "framesSinceMotion (ticks motion (Suc n) r) = 0" if "motion n"
    using that by (simp add: OnMotion_def)
  note conv = float64_to_int_in_range [OF assms(3,4)]
  have rest: "isRecording (ticks motion n r)
       \<and> trace (ticks motion n r) = trace r
       \<and> writer (ticks motion n r) = writer r
       \<and> (motion n \<longrightarrow> framesSinceMotion (ticks motion (Suc n) r) = 0)
       \<and> (\<not> motion n \<longrightarrow> Update (ticks motion n r) = (False, ticks motion (Suc n) r))"
    using now assms(1) quiet reset by simp
  show ?thesis using conv rest by (rule conjI)
qed

lemma example_recording_counter:
  "isRecording example_recording \<and> framesSinceMotion example_recording = 0
   \<and> sint (postBufferFrames example_recording) = 2"
  by (simp add: example_recording_eq example_defs postBufferFrames_def)

theorem periodic_OnMotion_never_idles_witness:
  "\<forall>n. isRecording (ticks even n example_recording)
       \<and> trace (ticks even n example_recording) = trace example_recording"
proof
  fix n
  have rec: "isRecording example_recording" and zero: "framesSinceMotion example_recording = 0"
    using example_recording_counter by simp_all
  have window: "\<forall>i. \<exists>j. int j < sint (postBufferFrames example_recording) \<and> even (i + j)"
  proof
    fix i :: nat
    show "\<exists>j. int j < sint (postBufferFrames example_recording) \<and> even (i + j)"
    proof (cases "even i")
      case True
      then have "int 0 < sint (postBufferFrames example_recording) \<and> even (i + 0)"
        using example_recording_counter by simp
      then show ?thesis by blast
    next
      case False
      then have "int 1 < sint (postBufferFrames example_recording) \<and> even (i + 1)"
        using example_recording_counter by simp
      then show ?thesis by blast
    qed
  qed
  have lo: "- (2 ^ 63) < FPS example_recording" and hi: "FPS example_recording < 2 ^ 63"
    by (simp_all add: example_recording_eq example_idle_def NewRecorder_def)
  from periodic_OnMotion_never_idles [OF rec zero lo hi window, of n]
  show "isRecording (ticks even n example_recording)
       \<and> trace (ticks even n example_recording) = trace example_recording"
    by blast
qed


lemma example_idle_frac_reached:
  "AddFrames example_env [example_frame 1, example_frame 2] (NewRecorder ''cam'' ''out'' (5 / 2) 1 2)
     = Inr example_idle_frac"
  by (simp add: example_idle_frac_def example_defs AddFrame_def ring_Next_def ring_set_Value_def
      Clone_def Empty_def)

lemma example_recording_frac_eq:
  "example_recording_frac =
     example_idle_frac
       \<lparr> writer := Some ''out/cam_20240101_120000.avi'',
         isRecording := True,
         currentFile := ''out/cam_20240101_120000.avi'',
         trace := [MkdirAll ''out'',
                   VideoWriterFile ''out/cam_20240101_120000.avi'' (5 / 2) 3 2,
                   Log (LogStarted ''cam'' ''out/cam_20240101_120000.avi''),
                   WriterWrite ''out/cam_20240101_120000.avi'' (example_frame 1) False,
                   WriterWrite ''out/cam_20240101_120000.avi'' (example_frame 2) False,
                   Log (LogWrotePreBuffered ''cam'' 2)] \<rparr>"
  by (simp add: example_recording_frac_def example_idle_frac_def example_defs StartRecording_def
      ring_Do_def pick_size_def write_buffered_def example_path Empty_def Let_def)

lemma ticks_numeral:
  "ticks motion (numeral k) r =
     (if motion (pred_numeral k) then OnMotion (ticks motion (pred_numeral k) r)
      else snd (Update (ticks motion (pred_numeral k) r)))"
  by (simp add: numeral_eq_Suc)

lemma ticks_1:
  "ticks motion 1 r = (if motion 0 then OnMotion r else snd (Update r))"
  by simp

text \<open>
  C5 as stated, with the bound \<open>fps \<times> postBufferSeconds\<close>, fails for a frame rate
  that is not a whole number: at 2.5 frames per second and 2 seconds the product is 5,
  the sequence with four calls of \<open>Update\<close> before each \<open>OnMotion\<close> stays below
  it, and the fourth \<open>Update\<close> stops the recording, since \<open>int(2.5) * 2 = 4\<close>.
\<close>

theorem fractional_fps_post_roll_counterexample:
  "isRecording example_recording_frac
   \<and> framesSinceMotion example_recording_frac = 0
   \<and> (\<forall>i. \<exists>j. real j < FPS example_recording_frac
                          * real_of_int (sint (PostBufferSeconds example_recording_frac))
              \<and> (i + j) mod 5 = 4)
   \<and> \<not> isRecording (ticks (\<lambda>i. i mod 5 = 4) 4 example_recording_frac)"
proof -
  have w: "\<exists>j. real j < 5 \<and> (i + j) mod 5 = 4" for i :: nat
  proof -
    have "\<exists>j<5. (i + j) mod 5 = 4" by presburger
    then show ?thesis by auto
  qed
  have "\<not> isRecording (ticks (\<lambda>i. i mod 5 = 4) 4 example_recording_frac)"
    by (simp add: ticks_numeral ticks_1 Update_def stopRecording_def Let_def
        example_recording_frac_eq example_idle_frac_def NewRecorder_def float64_to_int_def)
  then show ?thesis
    using w by (simp add: example_recording_frac_eq example_idle_frac_def NewRecorder_def)
qed

section \<open>The capacity of the ring\<close>

lemma ring_Len_insert:
  "ring_Len (Some (ring_Next (ring_set_Value v rg))) = ring_Len (Some rg)"
  by (cases rg) (simp add: ring_Len_def ring_Next_def ring_set_Value_def split: list.splits)

lemma AddFrame_preBuffer:
  "AddFrame env frame r = Inr r' \<Longrightarrow>
   \<exists>rg. preBuffer r = Some rg
        \<and> preBuffer r' = Some (ring_Next (ring_set_Value (Some (Clone frame)) rg))"
  by (auto simp: AddFrame_def Let_def split: option.splits)

lemma AddFrame_ring_Len:
  "AddFrame env frame r = Inr r' \<Longrightarrow> ring_Len (preBuffer r') = ring_Len (preBuffer r)"
  using AddFrame_preBuffer [of env frame r r'] ring_Len_insert by fastforce

lemma StartRecording_preBuffer [simp]: "preBuffer (snd (StartRecording env r)) = preBuffer r"
  by (simp add: StartRecording_def Let_def split: open_result.splits)

lemma OnMotion_preBuffer [simp]: "preBuffer (OnMotion r) = preBuffer r"
  by (simp add: OnMotion_def)

lemma stopRecording_preBuffer [simp]: "preBuffer (stopRecording r) = preBuffer r"
  by (simp add: stopRecording_def Let_def split: option.splits)

lemma Update_preBuffer [simp]: "preBuffer (snd (Update r)) = preBuffer r"
  by (simp add: Update_def Let_def)

lemma Stop_preBuffer [simp]: "preBuffer (Stop r) = preBuffer r"
  by (simp add: Stop_def)

lemma Close_preBuffer [simp]: "preBuffer (Close r) = preBuffer r"
  by (simp add: Close_def Let_def)

lemma exec_ring_Len:
  "exec c r = Inr r' \<Longrightarrow> ring_Len (preBuffer r') = ring_Len (preBuffer r)"
  by (cases c) (auto simp: AddFrame_ring_Len)

lemma run_ring_Len:
  "run cs r = Inr r' \<Longrightarrow> ring_Len (preBuffer r') = ring_Len (preBuffer r)"
proof (induction cs arbitrary: r)
  case Nil
  then show ?case by simp
next
  case (Cons c cs)
  then obtain r1 where e: "exec c r = Inr r1" and rest: "run cs r1 = Inr r'"
    by (auto split: sum.splits)
  from Cons.IH [OF rest] exec_ring_Len [OF e] show ?case by simp
qed

lemma ring_Len_New: "ring_Len (ring_New n) = nat (sint n)"
  by (simp add: ring_Len_def ring_New_def)

text \<open>
  C8, as amended. For a frame rate strictly between \<open>-2^63\<close> and \<open>2^63\<close>,
  \<open>int(fps)\<close> is the frame rate with its fraction dropped, and the ring made by
  \<open>NewRecorder\<close> has as many slots as \<open>int(fps) * preBufferSeconds\<close>, computed in
  64-bit integers, and none (the nil ring) when that product is not positive. Whatever
  calls follow, the number of slots stays the same.
\<close>

theorem capacity_is_truncated_product_and_fixed:
  assumes "- (2 ^ 63) < fps" and "fps < 2 ^ 63"
  shows "sint (float64_to_int fps) = (if 0 \<le> fps then \<lfloor>fps\<rfloor> else \<lceil>fps\<rceil>)
   \<and> ring_Len (preBuffer (NewRecorder name path fps pre post))
       = nat (sint (float64_to_int fps * pre))
   \<and> (run cs (NewRecorder name path fps pre post) = Inr r'
        \<longrightarrow> ring_Len (preBuffer r') = nat (sint (float64_to_int fps * pre)))"
proof -
  have "ring_Len (preBuffer (NewRecorder name path fps pre post))
          = nat (sint (float64_to_int fps * pre))"
    by (simp add: NewRecorder_def ring_Len_New)
  then show ?thesis
    using run_ring_Len float64_to_int_in_range [OF assms] by metis
qed

text \<open>
  C8 as stated fails: at 2.5 frames per second and 2 seconds the ring has 4 slots, while
  \<open>round(fps \<times> preBufferSeconds)\<close> is 5.
\<close>

theorem capacity_round_counterexample:
  "ring_Len (preBuffer (NewRecorder ''cam'' ''out'' (5 / 2) 2 2)) = 4
   \<and> round ((5 / 2 :: real) * real_of_int (sint (2 :: go_int))) = 5"
  by (simp add: NewRecorder_def float64_to_int_def ring_Len_New round_def)

theorem capacity_is_truncated_product_and_fixed_witness:
  "\<exists>r'. run [AddFrameCall example_env (example_frame 1), AddFrameCall example_env (example_frame 2),
            AddFrameCall example_env (example_frame 3), StartRecordingCall example_env,
            UpdateCall, StopCall]
           (NewRecorder ''cam'' ''out'' (5 / 2) 1 2) = Inr r'
        \<and> ring_Len (preBuffer r') = 2"
proof -
  let ?cs = "[AddFrameCall example_env (example_frame 1), AddFrameCall example_env (example_frame 2),
            AddFrameCall example_env (example_frame 3), StartRecordingCall example_env,
            UpdateCall, StopCall]"
  let ?R = "NewRecorder ''cam'' ''out'' (5 / 2) 1 2"
  have "\<exists>r'. run ?cs ?R = Inr r'"
    by (simp add: example_defs AddFrame_def ring_Next_def ring_set_Value_def Clone_def Empty_def)
  then obtain r' where h: "run ?cs ?R = Inr r'" by blast
  have lo: "- (2 ^ 63) < (5 / 2 :: real)" and hi: "(5 / 2 :: real) < 2 ^ 63" by simp_all
  from capacity_is_truncated_product_and_fixed [OF lo hi, of _ _ _ _ ?cs r',
      THEN conjunct2, THEN conjunct2, rule_format, OF h]
  have "ring_Len (preBuffer r') = 2" by (simp add: float64_to_int_def)
  with h show ?thesis by blast
qed


section \<open>The nil ring\<close>

lemma exec_other_returns:
  "\<not> is_AddFrameCall c \<Longrightarrow> \<exists>r'. exec c r = Inr r' \<and> preBuffer r' = preBuffer r"
  by (cases c) simp_all

lemma run_others_return:
  "\<forall>c\<in>set cs. \<not> is_AddFrameCall c \<Longrightarrow> \<exists>r'. run cs r = Inr r' \<and> preBuffer r' = preBuffer r"
proof (induction cs arbitrary: r)
  case Nil
  then show ?case by simp
next
  case (Cons c cs)
  then obtain r1 where e: "exec c r = Inr r1" and p: "preBuffer r1 = preBuffer r"
    using exec_other_returns [of c r] by auto
  from Cons obtain r' where "run cs r1 = Inr r'" and "preBuffer r' = preBuffer r1"
    by (metis list.set_intros(2))
  with e p show ?case by simp
qed

lemma run_append:
  "run (cs @ ds) r = (case run cs r of Inl p \<Rightarrow> Inl p | Inr r' \<Rightarrow> run ds r')"
  by (induction cs arbitrary: r) (simp_all split: sum.splits)

text \<open>
  C9. When \<open>int(fps) * preBufferSeconds\<close> is not positive, the recorder's ring is nil
  and \<open>AddFrame\<close> panics on it. The other operations return: after any sequence of
  \<open>StartRecording\<close>, \<open>OnMotion\<close>, \<open>Update\<close>, \<open>Stop\<close> and \<open>Close\<close>
  calls the ring is still nil, and the first \<open>AddFrame\<close> of a sequence ends it with
  the panic. On the new recorder \<open>StartRecording\<close> returns an error,
  \<open>Update\<close> changes nothing, \<open>Stop\<close> only logs, and \<open>Close\<close> does what
  \<open>Stop\<close> does, since visiting a nil ring visits nothing.
\<close>

theorem nil_ring_AddFrame_panics:
  assumes "sint (float64_to_int fps * pre) \<le> 0"
    and "\<forall>c\<in>set cs. \<not> is_AddFrameCall c"
  shows "preBuffer (NewRecorder name path fps pre post) = None
       \<and> AddFrame env frame (NewRecorder name path fps pre post) = Inl NilPointerDereference
       \<and> (\<exists>r'. run cs (NewRecorder name path fps pre post) = Inr r'
               \<and> preBuffer r' = None
               \<and> AddFrame env frame r' = Inl NilPointerDereference)
       \<and> run (cs @ AddFrameCall env frame # later) (NewRecorder name path fps pre post)
           = Inl NilPointerDereference
       \<and> fst (StartRecording env (NewRecorder name path fps pre post))
           = Some (if mkdir_fails env then OutputDirFailed else NoPreBufferFrames)
       \<and> Update (NewRecorder name path fps pre post) = (False, NewRecorder name path fps pre post)
       \<and> Stop (NewRecorder name path fps pre post)
           = (NewRecorder name path fps pre post)\<lparr> trace := [Log (LogStopped name [])] \<rparr>
       \<and> Close (NewRecorder name path fps pre post) = Stop (NewRecorder name path fps pre post)"
proof -
  let ?R = "NewRecorder name path fps pre post"
  have nil: "preBuffer ?R = None"
    using assms(1) by (simp add: NewRecorder_def ring_New_def)
  have panics: "AddFrame env frame r = Inl NilPointerDereference" if "preBuffer r = None" for r
    using that by (simp add: AddFrame_def)
  from run_others_return [OF assms(2), of ?R]
  obtain r' where ret: "run cs ?R = Inr r'" and nil': "preBuffer r' = None"
    using nil by auto
  have seq: "run (cs @ AddFrameCall env frame # later) ?R = Inl NilPointerDereference"
    using ret panics [OF nil'] by (simp add: run_append)
  have start: "fst (StartRecording env ?R)
                 = Some (if mkdir_fails env then OutputDirFailed else NoPreBufferFrames)"
    using assms(1) by (simp add: StartRecording_def NewRecorder_def ring_New_def ring_Do_def Let_def)
  have upd: "Update ?R = (False, ?R)"
    by (simp add: Update_def NewRecorder_def)
  have stop: "Stop ?R = ?R\<lparr> trace := [Log (LogStopped name [])] \<rparr>"
    by (simp add: Stop_def stopRecording_def NewRecorder_def Let_def)
  have close: "Close ?R = Stop ?R"
    using nil by (simp add: Close_def ring_Do_def Let_def)
  show ?thesis
    using nil panics [OF nil] ret nil' panics [OF nil'] seq start upd stop close by blast
qed

theorem nil_ring_AddFrame_panics_witness:
  "preBuffer (NewRecorder ''cam'' ''out'' 30 0 2) = None
   \<and> AddFrame example_env (example_frame 1) (NewRecorder ''cam'' ''out'' 30 0 2)
       = Inl NilPointerDereference
   \<and> run [StartRecordingCall example_env, UpdateCall, StopCall, CloseCall,
           AddFrameCall example_env (example_frame 1), UpdateCall]
          (NewRecorder ''cam'' ''out'' 30 0 2) = Inl NilPointerDereference"
proof -
  have cap: "sint (float64_to_int 30 * (0 :: go_int)) \<le> 0" by simp
  have others: "\<forall>c\<in>set [StartRecordingCall example_env, UpdateCall, StopCall, CloseCall].
                  \<not> is_AddFrameCall c" by simp
  from nil_ring_AddFrame_panics [OF cap others, of "''cam''" "''out''" 2 example_env
      "example_frame 1" "[UpdateCall]"]
  show ?thesis by simp
qed

section \<open>Draining the ring\<close>

lemma fold_snoc: "fold (\<lambda>v acc. acc @ [v]) xs ys = ys @ xs"
  by (induction xs arbitrary: ys) simp_all

lemma Drain_None [simp]: "Drain None = []"
  by (simp add: Drain_def ring_Do_def)

lemma Drain_Some [simp]: "Drain (Some rg) = Value rg # following rg"
  by (simp add: Drain_def ring_Do_def fold_snoc)

lemma ring_Do_Drain: "ring_Do p f s = fold f (Drain p) s"
  by (cases p) (simp_all add: ring_Do_def)

lemma Drain_insert:
  "Drain (Some (ring_Next (ring_set_Value v rg))) = tl (Drain (Some rg)) @ [v]"
  by (cases rg) (simp add: ring_Next_def ring_set_Value_def split: list.splits)

lemma length_Drain: "length (Drain p) = ring_Len p"
  by (cases p) (simp_all add: ring_Len_def)

lemma AddFrame_returns:
  assumes "preBuffer r = Some rg"
  shows "\<exists>r'. AddFrame env frame r = Inr r'
              \<and> preBuffer r' = Some (ring_Next (ring_set_Value (Some (Clone frame)) rg))
              \<and> isRecording r' = isRecording r \<and> writer r' = writer r
              \<and> (\<not> isRecording r \<longrightarrow> written_frames (trace r') = written_frames (trace r))"
proof -
  have wf: "written_frames (es @ [MatClose m]) = written_frames es" for es m
    by (induction es rule: written_frames.induct) simp_all
  show ?thesis
    using assms by (auto simp: AddFrame_def Let_def wf split: option.splits)
qed

lemma AddFrames_window:
  assumes "preBuffer r = Some rg"
  shows "\<exists>r'. AddFrames env frames r = Inr r'
              \<and> preBuffer r' \<noteq> None
              \<and> Drain (preBuffer r') = drop (length frames) (Drain (preBuffer r) @ map Some frames)
              \<and> isRecording r' = isRecording r \<and> writer r' = writer r
              \<and> (\<not> isRecording r \<longrightarrow> written_frames (trace r') = written_frames (trace r))"
  using assms
proof (induction frames arbitrary: r rg)
  case Nil
  then show ?case by simp
next
  case (Cons frame frames)
  from AddFrame_returns [OF Cons.prems, of env frame]
  obtain r1 where a: "AddFrame env frame r = Inr r1"
    and p: "preBuffer r1 = Some (ring_Next (ring_set_Value (Some (Clone frame)) rg))"
    and s: "isRecording r1 = isRecording r" "writer r1 = writer r"
      "\<not> isRecording r \<longrightarrow> written_frames (trace r1) = written_frames (trace r)"
    by blast
  from Cons.IH [OF p]
  obtain r' where b: "AddFrames env frames r1 = Inr r'"
    and q: "preBuffer r' \<noteq> None"
    and d: "Drain (preBuffer r') = drop (length frames) (Drain (preBuffer r1) @ map Some frames)"
    and t: "isRecording r' = isRecording r1" "writer r' = writer r1"
      "\<not> isRecording r1 \<longrightarrow> written_frames (trace r') = written_frames (trace r1)"
    by blast
  have "Drain (preBuffer r1) = tl (Drain (preBuffer r)) @ [Some frame]"
    using p Cons.prems Drain_insert [of "Some (Clone frame)" rg] by (simp add: Clone_def)
  moreover have "Drain (preBuffer r) = Value rg # tl (Drain (preBuffer r))"
    using Cons.prems by simp
  ultimately have "drop (length frames) (Drain (preBuffer r1) @ map Some frames)
      = drop (length (frame # frames)) (Drain (preBuffer r) @ map Some (frame # frames))"
    by (metis append.assoc append_Cons append_Nil drop_Suc_Cons length_Cons list.simps(9))
  with a b q d s t show ?case by simp
qed


lemma written_frames_append:
  "written_frames (xs @ ys) = written_frames xs @ written_frames ys"
  by (induction xs rule: written_frames.induct) simp_all

lemma written_frames_writes:
  "written_frames (map (\<lambda>m. WriterWrite w m (g m)) ms) = ms"
  by (induction ms) simp_all

lemma valid_mats_Nil [simp]: "valid_mats [] = []"
  by (simp add: valid_mats_def)

lemma valid_mats_Cons:
  "valid_mats (v # vs) =
     (case v of None \<Rightarrow> valid_mats vs
      | Some m \<Rightarrow> if Empty m then valid_mats vs else m # valid_mats vs)"
  by (simp add: valid_mats_def split: option.splits)

lemma valid_mats_Some: "valid_mats (map Some ms) = filter (\<lambda>m. \<not> Empty m) ms"
  by (induction ms) (simp_all add: valid_mats_Cons)

lemma fold_write_buffered:
  "fold (write_buffered env w) vs acc =
     (fst acc @ map (\<lambda>m. WriterWrite w m (write_fails env m)) (valid_mats vs),
      snd acc + length (valid_mats vs))"
  by (induction vs arbitrary: acc)
     (simp_all add: write_buffered_def valid_mats_Cons split: option.splits)

lemma StartRecording_writes:
  assumes "\<not> isRecording r" and "fst (StartRecording env r) = None"
  shows "written_frames (trace (snd (StartRecording env r)))
           = written_frames (trace r) @ valid_mats (Drain (preBuffer r))"
  using assms
  by (auto simp: StartRecording_def Let_def ring_Do_Drain fold_write_buffered
      written_frames_append written_frames_writes split: if_splits open_result.splits)

text \<open>
  C1. Take an idle recorder whose ring has \<open>C \<ge> 1\<close> slots (it is not nil) and call
  \<open>AddFrame\<close> for more than \<open>C\<close> images. Every call returns, the recorder is
  still idle with a ring of \<open>C\<close> slots, and \<open>Do\<close> from the ring's pointer visits
  exactly the last \<open>C\<close> images, oldest first. \<open>StartRecording\<close> leaves the ring as
  it is, and when it succeeds it has written those images to the new writer in that order,
  passing over the ones that are empty matrices: all of them when no image is empty.
\<close>

theorem drain_yields_last_frames_in_order:
  assumes "preBuffer r = Some rg" and "\<not> isRecording r"
    and "ring_Len (preBuffer r) < length frames"
  shows "\<exists>r'. AddFrames env frames r = Inr r'
            \<and> \<not> isRecording r'
            \<and> ring_Len (preBuffer r') = ring_Len (preBuffer r)
            \<and> Drain (preBuffer r')
                = map Some (drop (length frames - ring_Len (preBuffer r)) frames)
            \<and> preBuffer (snd (StartRecording env' r')) = preBuffer r'
            \<and> (fst (StartRecording env' r') = None \<longrightarrow>
                 written_frames (trace (snd (StartRecording env' r')))
                   = written_frames (trace r)
                     @ filter (\<lambda>m. \<not> Empty m)
                         (drop (length frames - ring_Len (preBuffer r)) frames))
            \<and> (fst (StartRecording env' r') = None \<and> (\<forall>m\<in>set frames. \<not> Empty m) \<longrightarrow>
                 written_frames (trace (snd (StartRecording env' r')))
                   = written_frames (trace r)
                     @ drop (length frames - ring_Len (preBuffer r)) frames)"
proof -
  from AddFrames_window [OF assms(1), of env frames]
  obtain r' where ret: "AddFrames env frames r = Inr r'"
    and d: "Drain (preBuffer r') = drop (length frames) (Drain (preBuffer r) @ map Some frames)"
    and idle: "isRecording r' = isRecording r"
    and tr: "\<not> isRecording r \<longrightarrow> written_frames (trace r') = written_frames (trace r)"
    by blast
  let ?C = "ring_Len (preBuffer r)"
  have "drop (length frames) (Drain (preBuffer r) @ map Some frames)
          = drop (length frames - ?C) (map Some frames)"
    using assms(3) by (simp add: length_Drain)
  then have last: "Drain (preBuffer r') = map Some (drop (length frames - ?C) frames)"
    using d by (simp add: drop_map)
  have len: "ring_Len (preBuffer r') = ?C"
  proof -
    have "length (Drain (preBuffer r')) = ?C"
      using last assms(3) by simp
    then show ?thesis by (simp add: length_Drain)
  qed
  have idle': "\<not> isRecording r'" using idle assms(2) by simp
  have "written_frames (trace (snd (StartRecording env' r')))
          = written_frames (trace r)
            @ filter (\<lambda>m. \<not> Empty m) (drop (length frames - ?C) frames)"
    if "fst (StartRecording env' r') = None"
    using StartRecording_writes [OF idle' that] last tr assms(2)
    by (simp add: valid_mats_Some)
  moreover have "filter (\<lambda>m. \<not> Empty m) (drop (length frames - ?C) frames)
                   = drop (length frames - ?C) frames"
    if "\<forall>m\<in>set frames. \<not> Empty m"
    using that by (auto simp: filter_id_conv dest: in_set_dropD)
  ultimately show ?thesis using ret idle' len last by auto
qed

theorem drain_yields_last_frames_in_order_witness:
  "\<exists>r'. AddFrames example_env [example_frame 1, example_frame 2, example_frame 3]
           (NewRecorder ''cam'' ''out'' 1 2 2) = Inr r'
        \<and> Drain (preBuffer r') = [Some (example_frame 2), Some (example_frame 3)]
        \<and> preBuffer (snd (StartRecording example_env r')) = preBuffer r'
        \<and> fst (StartRecording example_env r') = None
        \<and> written_frames (trace (snd (StartRecording example_env r')))
            = [example_frame 2, example_frame 3]"
proof -
  let ?R = "NewRecorder ''cam'' ''out'' 1 2 2"
  let ?fs = "[example_frame 1, example_frame 2, example_frame 3]"
  have ring: "preBuffer ?R = Some (Ring None [None])"
    by (simp add: NewRecorder_def float64_to_int_def ring_New_def)
  have idle: "\<not> isRecording ?R" and tr: "trace ?R = []"
    by (simp_all add: NewRecorder_def)
  have more: "ring_Len (preBuffer ?R) < length ?fs"
    by (simp add: ring ring_Len_def)
  from drain_yields_last_frames_in_order [OF ring idle more, of example_env example_env]
  obtain r' where ret: "AddFrames example_env ?fs ?R = Inr r'"
    and d: "Drain (preBuffer r') = map Some (drop (length ?fs - ring_Len (preBuffer ?R)) ?fs)"
    and same: "preBuffer (snd (StartRecording example_env r')) = preBuffer r'"
    and w: "fst (StartRecording example_env r') = None \<longrightarrow>
             written_frames (trace (snd (StartRecording example_env r')))
               = written_frames (trace ?R)
                 @ filter (\<lambda>m. \<not> Empty m) (drop (length ?fs - ring_Len (preBuffer ?R)) ?fs)"
    by (elim exE conjE) (rule that; assumption)
  have d': "Drain (preBuffer r') = [Some (example_frame 2), Some (example_frame 3)]"
    using d by (simp add: ring ring_Len_def)
  have r'_eq: "r' = ?R\<lparr> preBuffer := Some (Ring (Some (example_frame 2)) [Some (example_frame 3)]),
                         trace := [MatClose (example_frame 1)] \<rparr>"
    using ret by (simp add: NewRecorder_def float64_to_int_def ring_New_def AddFrame_def
        ring_Next_def ring_set_Value_def Clone_def Empty_def example_frame_def)
  have ok: "fst (StartRecording example_env r') = None"
    by (simp add: r'_eq example_defs StartRecording_def ring_Do_def pick_size_def Empty_def Let_def)
  have "written_frames (trace (snd (StartRecording example_env r')))
          = [example_frame 2, example_frame 3]"
    using w ok by (simp add: tr ring ring_Len_def Empty_def example_frame_def)
  with ret d' same ok show ?thesis by blast
qed

section \<open>Starting with nothing buffered\<close>

lemma pick_size_no_valid:
  "valid_mats vs = [] \<Longrightarrow> fold pick_size vs wh = wh"
  by (induction vs arbitrary: wh)
     (auto simp: valid_mats_Cons pick_size_def split: option.splits if_splits)

lemma pick_size_chosen:
  "fst wh \<noteq> 0 \<Longrightarrow> fold pick_size vs wh = wh"
  by (induction vs arbitrary: wh) (auto simp: pick_size_def split: option.splits)

lemma pick_size_first_valid:
  "valid_mats vs = m # ms \<Longrightarrow> fold pick_size vs (0, 0) = (Cols m, Rows m)"
proof (induction vs)
  case Nil
  then show ?case by simp
next
  case (Cons v vs)
  show ?case
  proof (cases v)
    case None
    with Cons show ?thesis by (simp add: valid_mats_Cons pick_size_def)
  next
    case (Some x)
    show ?thesis
    proof (cases "Empty x")
      case True
      with Some Cons show ?thesis by (simp add: valid_mats_Cons pick_size_def)
    next
      case False
      with Some Cons.prems have "x = m" by (simp add: valid_mats_Cons)
      moreover have "fst (Cols m, Rows m) \<noteq> 0" using False \<open>x = m\<close> by (simp add: Empty_def)
      moreover have "pick_size (Some m) (0, 0) = (Cols m, Rows m)"
        using False \<open>x = m\<close> by (simp add: pick_size_def)
      ultimately show ?thesis
        using Some pick_size_chosen [of "(Cols m, Rows m)" vs] by simp
    qed
  qed
qed

lemma valid_mats_not_Empty: "m \<in> set (valid_mats vs) \<Longrightarrow> \<not> Empty m"
  by (induction vs) (auto simp: valid_mats_Cons split: option.splits if_splits)

lemma no_occupied_slot_no_valid_mat: "set vs \<subseteq> {None} \<Longrightarrow> valid_mats vs = []"
  by (induction vs) (auto simp: valid_mats_Cons)

text \<open>
  C3, as amended. On an idle recorder, once the output directory could be made,
  \<open>StartRecording\<close> fails with \<open>NoPreBufferFrames\<close> whenever no slot of the ring
  holds a non-empty image: when no slot is occupied, whatever the capacity, and so also
  for the nil ring of capacity 0. It has set the path of the current file by then; it
  opens no writer and the recorder stays idle.
\<close>

theorem StartRecording_without_valid_frames:
  assumes "\<not> isRecording r" and "\<not> mkdir_fails env"
    and "valid_mats (Drain (preBuffer r)) = []"
  shows "StartRecording env r =
          (Some NoPreBufferFrames,
           r\<lparr> currentFile := join_path (OutputPath r) (Name r @ ''_'' @ timestamp env @ ''.avi''),
              trace := trace r @ [MkdirAll (OutputPath r)] \<rparr>)
       \<and> \<not> isRecording (snd (StartRecording env r))
       \<and> writer (snd (StartRecording env r)) = writer r"
  using assms
  by (simp add: StartRecording_def Let_def ring_Do_Drain pick_size_no_valid)

text \<open>
  C3 as stated fails for capacity 0: the ring is nil, \<open>Do\<close> visits nothing, the width
  stays 0 and \<open>StartRecording\<close> returns the same error instead of succeeding.
\<close>

theorem StartRecording_capacity_zero_counterexample:
  "ring_Len (preBuffer (NewRecorder ''cam'' ''out'' 30 0 2)) = 0
   \<and> Drain (preBuffer (NewRecorder ''cam'' ''out'' 30 0 2)) = []
   \<and> fst (StartRecording example_env (NewRecorder ''cam'' ''out'' 30 0 2)) = Some NoPreBufferFrames"
  by (simp add: NewRecorder_def ring_New_def ring_Len_def StartRecording_def ring_Do_def
      example_env_def Let_def)

theorem StartRecording_without_valid_frames_witness:
  "Drain (preBuffer (NewRecorder ''cam'' ''out'' 1 2 2)) = [None, None]
   \<and> fst (StartRecording example_env (NewRecorder ''cam'' ''out'' 1 2 2)) = Some NoPreBufferFrames
   \<and> \<not> isRecording (snd (StartRecording example_env (NewRecorder ''cam'' ''out'' 1 2 2)))"
proof -
  let ?R = "NewRecorder ''cam'' ''out'' 1 2 2"
  have d: "Drain (preBuffer ?R) = [None, None]"
    by (simp add: NewRecorder_def float64_to_int_def ring_New_def)
  have idle: "\<not> isRecording ?R" by (simp add: NewRecorder_def)
  have dir: "\<not> mkdir_fails example_env" by (simp add: example_env_def)
  have none: "valid_mats (Drain (preBuffer ?R)) = []"
    using d by (simp add: valid_mats_Cons)
  from StartRecording_without_valid_frames [OF idle dir none] d idle
  show ?thesis by simp
qed

section \<open>Failures of the sink\<close>

lemma log_lines_append: "log_lines (xs @ ys) = log_lines xs @ log_lines ys"
  by (induction xs rule: log_lines.induct) simp_all

lemma writers_closed_append: "writers_closed (xs @ ys) = writers_closed xs @ writers_closed ys"
  by (induction xs rule: writers_closed.induct) simp_all

lemma AddFrame_keeps_state:
  assumes "AddFrame env frame r = Inr r'"
  shows "isRecording r' = isRecording r \<and> writer r' = writer r
         \<and> log_lines (trace r') = log_lines (trace r)
         \<and> writers_closed (trace r') = writers_closed (trace r)"
  using assms
  by (auto simp: AddFrame_def Let_def log_lines_append writers_closed_append
      split: option.splits if_splits)

lemma StartRecording_open_fails:
  assumes "\<not> isRecording r" and "\<not> mkdir_fails env"
    and "valid_mats (Drain (preBuffer r)) \<noteq> []" and "open_result env \<noteq> Opened"
  shows "fst (StartRecording env r)
           = Some (if open_result env = OpenError then SinkOpenFailed else SinkNotOpened)
         \<and> \<not> isRecording (snd (StartRecording env r))
         \<and> writer (snd (StartRecording env r)) = writer r"
proof -
  from assms(3) obtain m ms where v: "valid_mats (Drain (preBuffer r)) = m # ms"
    by (cases "valid_mats (Drain (preBuffer r))") auto
  then have "m \<in> set (valid_mats (Drain (preBuffer r)))" by simp
  then have "\<not> Empty m" by (rule valid_mats_not_Empty)
  then have size: "Cols m \<noteq> 0 \<and> Rows m \<noteq> 0" by (simp add: Empty_def)
  have pick: "ring_Do (preBuffer r) pick_size (0, 0) = (Cols m, Rows m)"
    using pick_size_first_valid [OF v] by (simp add: ring_Do_Drain)
  show ?thesis
    using assms(1,2,4) size pick
    by (cases "open_result env") (simp_all add: StartRecording_def Let_def)
qed

lemma example_failed_write:
  "AddFrame failing_sink_env (example_frame 3) example_recording =
     Inr (example_recording
            \<lparr> preBuffer := Some (Ring (Some (example_frame 2)) [Some (example_frame 3)]),
              trace := trace example_recording
                       @ [MatClose (example_frame 1),
                          WriterWrite ''out/cam_20240101_120000.avi'' (example_frame 3) True] \<rparr>)"
  by (simp add: example_recording_eq example_defs AddFrame_def ring_Next_def ring_set_Value_def
      Clone_def Empty_def)

text \<open>
  C6, as amended. \<open>AddFrame\<close> drops the result of the writer's \<open>Write\<close>: whether
  the write fails or not, a call that returns leaves \<open>isRecording\<close> and the writer as
  they were, logs nothing and closes no writer, so a recording recorder keeps recording.
  A writer that cannot be opened is reported: on an idle recorder with a valid buffered
  image and the output directory made, \<open>StartRecording\<close> returns the error and the
  recorder stays idle with the writer it had (none).
\<close>

theorem sink_write_failure_ignored_open_failure_returned:
  "(AddFrame env frame r = Inr r' \<longrightarrow>
      isRecording r' = isRecording r \<and> writer r' = writer r
      \<and> log_lines (trace r') = log_lines (trace r)
      \<and> writers_closed (trace r') = writers_closed (trace r))
   \<and> (\<not> isRecording r \<and> \<not> mkdir_fails env \<and> valid_mats (Drain (preBuffer r)) \<noteq> []
        \<and> open_result env \<noteq> Opened \<longrightarrow>
      fst (StartRecording env r)
        = Some (if open_result env = OpenError then SinkOpenFailed else SinkNotOpened)
      \<and> \<not> isRecording (snd (StartRecording env r))
      \<and> writer (snd (StartRecording env r)) = writer r)"
  using AddFrame_keeps_state StartRecording_open_fails by blast

text \<open>
  C6 as stated fails in its first half: with a sink whose every write fails, \<open>AddFrame\<close>
  on a recording recorder makes the failing write and the recorder is still recording,
  its writer open, and no line logged.
\<close>

theorem sink_write_failure_counterexample:
  "write_fails failing_sink_env (example_frame 3)
   \<and> isRecording example_recording
   \<and> (\<exists>r'. AddFrame failing_sink_env (example_frame 3) example_recording = Inr r'
           \<and> isRecording r'
           \<and> writer r' = Some ''out/cam_20240101_120000.avi''
           \<and> trace r' = trace example_recording
                         @ [MatClose (example_frame 1),
                            WriterWrite ''out/cam_20240101_120000.avi'' (example_frame 3) True])"
  using example_failed_write
  by (simp add: example_recording_eq failing_sink_env_def example_env_def)

theorem sink_write_failure_ignored_open_failure_returned_witness:
  "(\<exists>r'. AddFrame failing_sink_env (example_frame 3) example_recording = Inr r'
         \<and> isRecording r' \<and> writer r' = writer example_recording
         \<and> log_lines (trace r') = log_lines (trace example_recording))
   \<and> fst (StartRecording (example_env\<lparr> open_result := OpenError \<rparr>) example_idle)
       = Some SinkOpenFailed
   \<and> \<not> isRecording (snd (StartRecording (example_env\<lparr> open_result := OpenError \<rparr>) example_idle))"
proof -
  let ?env = "example_env\<lparr> open_result := OpenError \<rparr>"
  obtain r' where a: "AddFrame failing_sink_env (example_frame 3) example_recording = Inr r'"
    using example_failed_write by blast
  have rec: "isRecording example_recording" by (simp add: example_recording_eq)
  note t1 = sink_write_failure_ignored_open_failure_returned
    [of failing_sink_env "example_frame 3" example_recording r', THEN conjunct1]
  note t2 = sink_write_failure_ignored_open_failure_returned
    [of ?env "example_frame 3" example_idle r', THEN conjunct2]
  from t1 [rule_format, OF a] rec a
  have first: "\<exists>r'. AddFrame failing_sink_env (example_frame 3) example_recording = Inr r'
         \<and> isRecording r' \<and> writer r' = writer example_recording
         \<and> log_lines (trace r') = log_lines (trace example_recording)"
    by auto
  have pre: "\<not> isRecording example_idle \<and> \<not> mkdir_fails ?env
             \<and> valid_mats (Drain (preBuffer example_idle)) \<noteq> [] \<and> open_result ?env \<noteq> Opened"
    by (simp add: example_defs valid_mats_Cons Empty_def)
  from t2 [rule_format, OF pre] first
  show ?thesis by simp
qed

section \<open>Stopping a camera\<close>

lemma stopMonitor_running:
  "running monitor \<Longrightarrow> stopChanClosed (stopMonitor monitor) \<and> \<not> running (stopMonitor monitor)"
  by (simp add: stopMonitor_def)

lemma stopMonitor_not_running: "\<not> running (stopMonitor monitor)"
  by (simp add: stopMonitor_def)

lemma Manager_Stop_registered:
  "monitors m cameraName = Some p \<Longrightarrow>
   monitors (Manager_Stop m) cameraName = Some p \<and> \<not> running (store (Manager_Stop m) p)"
  by (simp add: Manager_Stop_def ranI stopMonitor_not_running)

lemma StopCamera_not_found:
  "monitors m cameraName = None \<Longrightarrow> StopCamera cameraName m = (Some (NotFound cameraName), m)"
  by (simp add: StopCamera_def)

lemma StopCamera_not_running:
  "monitors m cameraName = Some p \<Longrightarrow> \<not> running (store m p) \<Longrightarrow>
   StopCamera cameraName m = (Some (NotRunning cameraName), m)"
  by (simp add: StopCamera_def)

lemma StopCamera_running:
  "monitors m cameraName = Some p \<Longrightarrow> running (store m p) \<Longrightarrow>
   StopCamera cameraName m =
     (None, m\<lparr> store := (store m)(p := stopMonitor (store m p)),
               monitors := (monitors m)(cameraName := None) \<rparr>)"
  by (simp add: StopCamera_def)

text \<open>
  C7, as amended. \<open>StopCamera\<close> returns \<open>NotFound\<close> for a name the registry does not
  hold and \<open>NotRunning\<close> for a monitor that is registered and not running, changing
  nothing in either case. \<open>Manager.Stop\<close> leaves every registered monitor in that second
  state. For a running monitor \<open>StopCamera\<close> returns no error, closes the monitor's
  stop channel (the signal its loop waits for), marks it as not running, and removes the
  name from the registry; no other monitor is touched. The name is unknown from then on:
  stopping the same camera again returns \<open>NotFound\<close>.
\<close>

theorem StopCamera_outcomes:
  "(monitors m cameraName = None \<longrightarrow>
      StopCamera cameraName m = (Some (NotFound cameraName), m))
   \<and> (monitors m cameraName = Some p \<and> \<not> running (store m p) \<longrightarrow>
      StopCamera cameraName m = (Some (NotRunning cameraName), m))
   \<and> (monitors m cameraName = Some p \<longrightarrow>
      StopCamera cameraName (Manager_Stop m) = (Some (NotRunning cameraName), Manager_Stop m))
   \<and> (monitors m cameraName = Some p \<and> running (store m p) \<longrightarrow>
      fst (StopCamera cameraName m) = None
      \<and> monitors (snd (StopCamera cameraName m)) = (monitors m)(cameraName := None)
      \<and> store (snd (StopCamera cameraName m)) = (store m)(p := stopMonitor (store m p))
      \<and> stopChanClosed (store (snd (StopCamera cameraName m)) p)
      \<and> \<not> running (store (snd (StopCamera cameraName m)) p)
      \<and> StopCamera cameraName (snd (StopCamera cameraName m))
          = (Some (NotFound cameraName), snd (StopCamera cameraName m)))"
proof -
  have stopped: "StopCamera cameraName (Manager_Stop m)
                   = (Some (NotRunning cameraName), Manager_Stop m)"
    if "monitors m cameraName = Some p"
    using Manager_Stop_registered [OF that] by (simp add: StopCamera_not_running)
  have success: "fst (StopCamera cameraName m) = None
      \<and> monitors (snd (StopCamera cameraName m)) = (monitors m)(cameraName := None)
      \<and> store (snd (StopCamera cameraName m)) = (store m)(p := stopMonitor (store m p))
      \<and> stopChanClosed (store (snd (StopCamera cameraName m)) p)
      \<and> \<not> running (store (snd (StopCamera cameraName m)) p)
      \<and> StopCamera cameraName (snd (StopCamera cameraName m))
          = (Some (NotFound cameraName), snd (StopCamera cameraName m))"
    if "monitors m cameraName = Some p" and "running (store m p)"
  proof -
    note eq = StopCamera_running [OF that]
    have gone: "monitors (snd (StopCamera cameraName m)) cameraName = None"
      by (simp add: eq)
    show ?thesis
      using StopCamera_not_found [OF gone] stopMonitor_running [OF that(2)]
      by (simp add: eq)
  qed
  show ?thesis
    using StopCamera_not_found StopCamera_not_running stopped success by blast
qed

text \<open>
  C7 as stated fails for a camera that \<open>StopCamera\<close> has stopped: it is known and
  already stopped, and the second call returns \<open>NotFound\<close>, not \<open>NotRunning\<close>.
\<close>

theorem StopCamera_twice_counterexample:
  "monitors example_manager ''cam'' = Some 0
   \<and> running (store example_manager 0)
   \<and> fst (StopCamera ''cam'' example_manager) = None
   \<and> fst (StopCamera ''cam'' (snd (StopCamera ''cam'' example_manager)))
       = Some (NotFound ''cam'')"
  by (simp add: StopCamera_def example_manager_def example_monitor_def)

lemma example_manager_facts:
  "monitors example_manager ''door'' = None
   \<and> monitors example_manager ''yard'' = Some 1
   \<and> monitors example_manager ''cam'' = Some 0
   \<and> running (store example_manager 0)"
  by (simp add: example_manager_def example_monitor_def)

theorem StopCamera_outcomes_witness:
  "StopCamera ''door'' example_manager = (Some (NotFound ''door''), example_manager)
   \<and> StopCamera ''yard'' (Manager_Stop example_manager)
       = (Some (NotRunning ''yard''), Manager_Stop example_manager)
   \<and> fst (StopCamera ''cam'' example_manager) = None
   \<and> monitors (snd (StopCamera ''cam'' example_manager)) ''cam'' = None
   \<and> stopChanClosed (store (snd (StopCamera ''cam'' example_manager)) 0)
   \<and> fst (StopCamera ''cam'' (snd (StopCamera ''cam'' example_manager))) = Some (NotFound ''cam'')"
proof -
  note f = example_manager_facts
  have unknown: "monitors example_manager ''door'' = None" using f by simp
  have yard: "monitors example_manager ''yard'' = Some 1" using f by simp
  have cam: "monitors example_manager ''cam'' = Some 0 \<and> running (store example_manager 0)"
    using f by simp
  note a = StopCamera_outcomes [of example_manager "''door''", THEN conjunct1, rule_format,
      OF unknown]
  note b = StopCamera_outcomes [of example_manager "''yard''" 1, THEN conjunct2, THEN conjunct2,
      THEN conjunct1, rule_format, OF yard]
  note c = StopCamera_outcomes [of example_manager "''cam''" 0, THEN conjunct2, THEN conjunct2,
      THEN conjunct2, rule_format, OF cam]
  from c have gone: "monitors (snd (StopCamera ''cam'' example_manager)) ''cam'' = None"
    by simp
  from c have again:
    "fst (StopCamera ''cam'' (snd (StopCamera ''cam'' example_manager))) = Some (NotFound ''cam'')"
    by simp
  from a b c gone again show ?thesis by blast
qed

end
